theory Spec2Isabelle
  imports
    Main
    "HOL-Library.AList"
    "HOL-Library.Char_ord"
    "HOL-Library.List_Lexorder"
    "HOL-Library.Product_Lexorder"
begin

section \<open>NovelSearch: the data model of \<^verbatim>\<open>cli.py\<close>\<close>

text \<open>
  Every novel is a Python dict with the five keys \<^verbatim>\<open>title\<close>, \<^verbatim>\<open>award\<close>, \<^verbatim>\<open>year\<close>,
  \<^verbatim>\<open>pov\<close> and \<^verbatim>\<open>read\<close>.  The \<^verbatim>\<open>pov\<close> value is \<^verbatim>\<open>None\<close> or a string, as it comes back
  from the JSON file; strings are lists of 8-bit characters compared by code point, which is
  how Python orders \<^verbatim>\<open>str\<close> values.
\<close>

record novel =
  title :: string
  award :: string
  year :: int
  pov :: "string option"
  read :: bool

datatype error = RequestError | HTTPError | IndexError | EOFError

type_synonym key = "string \<times> int"

text \<open>The tuple \<^verbatim>\<open>(item["title"], item["year"])\<close> used as dictionary key.\<close>

definition novel_key :: "novel \<Rightarrow> key" where
  "novel_key n = (title n, year n)"

text \<open>The tuple \<^verbatim>\<open>(x["year"], x["title"])\<close> used as sort key by \<^verbatim>\<open>scrape\<close>.\<close>

definition year_title :: "novel \<Rightarrow> int \<times> string" where
  "year_title x = (year x, title x)"

subsection \<open>String operations of the Python runtime\<close>

text \<open>\<^verbatim>\<open>sep.join(xs)\<close>.\<close>

fun join :: "string \<Rightarrow> string list \<Rightarrow> string" where
  "join sep [] = []"
| "join sep [x] = x"
| "join sep (x # y # ys) = x @ sep @ join sep (y # ys)"

text \<open>\<^verbatim>\<open>sorted(xs)\<close> on a list of strings: a stable ascending sort.\<close>

definition sorted_strs :: "string list \<Rightarrow> string list" where
  "sorted_strs xs = sort xs"

text \<open>\<^verbatim>\<open>str.lower()\<close> on code points below 256: the ASCII and the Latin-1 capitals.\<close>

definition lower_char :: "char \<Rightarrow> char" where
  "lower_char c =
     (let n = (of_char c :: nat) in
      if (65 \<le> n \<and> n \<le> 90) \<or> (192 \<le> n \<and> n \<le> 222 \<and> n \<noteq> 215)
      then char_of (n + 32) else c)"

definition py_lower :: "string \<Rightarrow> string" where
  "py_lower s = map lower_char s"

text \<open>\<^verbatim>\<open>str.isspace()\<close> on one code point below 256.\<close>

definition is_space :: "char \<Rightarrow> bool" where
  "is_space c =
     (let n = (of_char c :: nat) in
      (9 \<le> n \<and> n \<le> 13) \<or> (28 \<le> n \<and> n \<le> 32) \<or> n = 133 \<or> n = 160)"

text \<open>\<^verbatim>\<open>str.strip()\<close> without argument.\<close>

definition py_strip :: "string \<Rightarrow> string" where
  "py_strip s = rev (dropWhile is_space (rev (dropWhile is_space s)))"

text \<open>
  \<^verbatim>\<open>str.split()\<close> without argument: the maximal runs of characters that are not white
  space.  The first argument is the token being read.
\<close>

fun split_from :: "string \<Rightarrow> string \<Rightarrow> string list" where
  "split_from tok [] = (if tok = [] then [] else [tok])"
| "split_from tok (c # cs) =
     (if is_space c
      then (if tok = [] then split_from [] cs else tok # split_from [] cs)
      else split_from (tok @ [c]) cs)"

definition py_split :: "string \<Rightarrow> string list" where
  "py_split s = split_from [] s"

text \<open>\<^verbatim>\<open>sub in s\<close> on strings.\<close>

fun starts_with :: "string \<Rightarrow> string \<Rightarrow> bool" where
  "starts_with [] s = True"
| "starts_with (p # ps) [] = False"
| "starts_with (p # ps) (c # cs) = (p = c \<and> starts_with ps cs)"

fun str_contains :: "string \<Rightarrow> string \<Rightarrow> bool" where
  "str_contains sub [] = (sub = [])"
| "str_contains sub (c # cs) = (starts_with sub (c # cs) \<or> str_contains sub cs)"

text \<open>
  \<^verbatim>\<open>int(s)\<close> in base ten.  The white space \<^verbatim>\<open>int\<close> drops around the literal is
  narrower than that of \<^verbatim>\<open>str.strip\<close>: the ASCII characters 9 to 13 and 32, and of the
  code points from 128 to 255 the two that are white space, 133 and 160; the separators
  28 to 31 make the literal invalid.  Then comes an optional sign, then decimal digits,
  single underscores allowed between two digits.  A literal of more than 4300 digits,
  underscores and sign not counted, is refused, as the interpreter does by default from
  version 3.11 on.  \<^verbatim>\<open>None\<close> is the \<^verbatim>\<open>ValueError\<close>.
\<close>

definition is_int_space :: "char \<Rightarrow> bool" where
  "is_int_space c =
     (let n = (of_char c :: nat) in (9 \<le> n \<and> n \<le> 13) \<or> n = 32 \<or> n = 133 \<or> n = 160)"

definition int_strip :: "string \<Rightarrow> string" where
  "int_strip s = rev (dropWhile is_int_space (rev (dropWhile is_int_space s)))"

definition is_digit :: "char \<Rightarrow> bool" where
  "is_digit c \<longleftrightarrow> CHR ''0'' \<le> c \<and> c \<le> CHR ''9''"

fun digits_value :: "nat \<Rightarrow> string \<Rightarrow> nat option" where
  "digits_value acc [] = Some acc"
| "digits_value acc (c # cs) =
     (if is_digit c then digits_value (10 * acc + (of_char c - 48)) cs
      else if c = CHR ''_'' \<and> cs \<noteq> [] \<and> is_digit (hd cs) then digits_value acc cs
      else None)"

definition max_str_digits :: nat where
  "max_str_digits = 4300"

definition unsigned_int :: "string \<Rightarrow> int option" where
  "unsigned_int s =
     (case s of
        [] \<Rightarrow> None
      | c # _ \<Rightarrow>
          if is_digit c then
            (case digits_value 0 s of
               None \<Rightarrow> None
             | Some n \<Rightarrow>
                 if length (filter is_digit s) > max_str_digits then None else Some (int n))
          else None)"

definition py_int :: "string \<Rightarrow> int option" where
  "py_int s =
     (case int_strip s of
        [] \<Rightarrow> None
      | c # cs \<Rightarrow>
          if c = CHR ''-'' then map_option uminus (unsigned_int cs)
          else if c = CHR ''+'' then unsigned_int cs
          else unsigned_int (c # cs))"

text \<open>\<^verbatim>\<open>parse_int\<close>, lines 50 to 58: zero when \<^verbatim>\<open>int\<close> raises \<^verbatim>\<open>ValueError\<close>.\<close>

definition parse_int :: "string \<Rightarrow> int" where
  "parse_int s = (case py_int s of Some n \<Rightarrow> n | None \<Rightarrow> 0)"

subsection \<open>The dictionary \<^verbatim>\<open>existing_map\<close>\<close>

text \<open>
  A Python dict keeps its keys in insertion order, and an assignment to a key that is
  present replaces the value where it stands.  \<^const>\<open>AList.update\<close> on an association list
  does exactly that; \<^const>\<open>map_of\<close> is the lookup.
\<close>

type_synonym novel_dict = "(key \<times> novel) list"

text \<open>\<^verbatim>\<open>list(existing_map.values())\<close>.\<close>

definition dict_values :: "novel_dict \<Rightarrow> novel list" where
  "dict_values m = map snd m"

subsection \<open>The JSON file\<close>

text \<open>
  \<^verbatim>\<open>load_novels_from_json\<close>: the file's list when the file exists, the empty list
  otherwise.  The file is \<^verbatim>\<open>None\<close> when it does not exist.
\<close>

definition load_novels_from_json :: "novel list option \<Rightarrow> novel list" where
  "load_novels_from_json file = (case file of Some novels \<Rightarrow> novels | None \<Rightarrow> [])"

section \<open>The collector \<^verbatim>\<open>scrape_award_novels\<close>\<close>

text \<open>
  The page as the parser hands it over.  A row is what \<^verbatim>\<open>find_all(["th", "td"])\<close> and
  \<^verbatim>\<open>find_all("i")\<close> return for it, each element already passed through
  \<^verbatim>\<open>get_text(strip=True)\<close>; a table is the list of its \<^verbatim>\<open>tr\<close> rows; a page is the list of
  its tables of class \<^verbatim>\<open>wikitable\<close>.  The request may fail before there is a page.
\<close>

record row =
  cells :: "string list"
  i_tags :: "string list"

type_synonym table = "row list"

datatype response = ConnectionFailed | BadStatus | Page "table list"

text \<open>Lines 87 to 89: a header with both a "year" and a "year awarded" column.\<close>

definition is_retro_header :: "string list \<Rightarrow> bool" where
  "is_retro_header header_cells =
     (let header_texts = map py_lower header_cells
      in ''year'' \<in> set header_texts \<and> ''year awarded'' \<in> set header_texts)"

text \<open>Lines 92 to 96: the index of the first column naming a year and not "awarded".\<close>

fun find_year_col :: "nat \<Rightarrow> string list \<Rightarrow> nat option" where
  "find_year_col i [] = None"
| "find_year_col i (cell # rest) =
     (let col_title = py_lower cell in
      if str_contains ''year'' col_title \<and> \<not> str_contains ''awarded'' col_title
      then Some i else find_year_col (Suc i) rest)"

text \<open>Lines 117 to 131: the records of one row under the year in force.\<close>

definition row_records :: "string \<Rightarrow> int \<Rightarrow> row \<Rightarrow> novel list" where
  "row_records award_name current_year r =
     (if current_year = 0 then []
      else map (\<lambda>t. \<lparr>title = t, award = award_name, year = current_year,
                      pov = None, read = False\<rparr>)
               (filter (\<lambda>t. t \<noteq> []) (i_tags r)))"

text \<open>
  Lines 105 to 131, one pass of the loop over the body rows: the year in force after the
  row and the records the row appends.  \<^verbatim>\<open>year_cell.split()[0]\<close> raises \<^verbatim>\<open>IndexError\<close>
  on a year cell without text.
\<close>

definition scrape_row :: "nat \<Rightarrow> string \<Rightarrow> int \<Rightarrow> row \<Rightarrow> error + (int \<times> novel list)" where
  "scrape_row year_col_index award_name current_year r =
     (if length (cells r) > year_col_index then
        (let year_cell = cells r ! year_col_index in
         if str_contains ''retro'' (py_lower year_cell) then Inr (current_year, [])
         else
           (case py_split year_cell of
              [] \<Rightarrow> Inl IndexError
            | tok # _ \<Rightarrow>
                (let new_year = parse_int tok;
                     current_year' = (if new_year > 0 then new_year else current_year)
                 in Inr (current_year', row_records award_name current_year' r))))
      else Inr (current_year, row_records award_name current_year r))"

text \<open>The loop over the body rows, from the year in force and the list collected so far.\<close>

fun scrape_rows ::
  "nat \<Rightarrow> string \<Rightarrow> int \<Rightarrow> novel list \<Rightarrow> row list \<Rightarrow> error + (int \<times> novel list)" where
  "scrape_rows yc award_name current_year award_novels [] = Inr (current_year, award_novels)"
| "scrape_rows yc award_name current_year award_novels (r # rs) =
     (case scrape_row yc award_name current_year r of
        Inl e \<Rightarrow> Inl e
      | Inr (current_year', recs) \<Rightarrow>
          scrape_rows yc award_name current_year' (award_novels @ recs) rs)"

text \<open>Lines 77 to 131, one pass of the loop over the tables.\<close>

definition scrape_table :: "string \<Rightarrow> novel list \<Rightarrow> table \<Rightarrow> error + novel list" where
  "scrape_table award_name award_novels rows =
     (case rows of
        [] \<Rightarrow> Inr award_novels
      | header # body \<Rightarrow>
          if is_retro_header (cells header) then Inr award_novels
          else
            (case find_year_col 0 (cells header) of
               None \<Rightarrow> Inr award_novels
             | Some year_col_index \<Rightarrow>
                 (case scrape_rows year_col_index award_name 0 award_novels body of
                    Inl e \<Rightarrow> Inl e
                  | Inr (_, award_novels') \<Rightarrow> Inr award_novels')))"

fun scrape_tables :: "string \<Rightarrow> novel list \<Rightarrow> table list \<Rightarrow> error + novel list" where
  "scrape_tables award_name award_novels [] = Inr award_novels"
| "scrape_tables award_name award_novels (t # ts) =
     (case scrape_table award_name award_novels t of
        Inl e \<Rightarrow> Inl e
      | Inr award_novels' \<Rightarrow> scrape_tables award_name award_novels' ts)"

definition scrape_award_novels :: "response \<Rightarrow> string \<Rightarrow> error + novel list" where
  "scrape_award_novels resp award_name =
     (case resp of
        ConnectionFailed \<Rightarrow> Inl RequestError
      | BadStatus \<Rightarrow> Inl HTTPError
      | Page tables \<Rightarrow> scrape_tables award_name [] tables)"

section \<open>The merge of the \<^verbatim>\<open>scrape\<close> command\<close>

text \<open>
  Lines 194 to 197: the dictionary of the persisted records, a later record replacing an
  earlier one with the same key.
\<close>

fun build_map :: "novel_dict \<Rightarrow> novel list \<Rightarrow> novel_dict" where
  "build_map m [] = m"
| "build_map m (item # rest) = build_map (AList.update (novel_key item) item m) rest"

text \<open>
  Lines 205 to 211: what the new item receives from the record found under its key.  It
  takes that record's \<^verbatim>\<open>pov\<close> when it is not \<^verbatim>\<open>None\<close> and, when the two award strings
  differ, the two strings sorted and joined with a pipe.
\<close>

definition carry_over :: "novel \<Rightarrow> novel \<Rightarrow> novel" where
  "carry_over found item =
     (let item1 = (if pov found \<noteq> None then item\<lparr>pov := pov found\<rparr> else item);
          item2 = (if award item1 \<noteq> award found
                   then item1\<lparr>award := join ''|'' (sorted_strs [award item1, award found])\<rparr>
                   else item1)
      in item2)"

text \<open>
  Lines 201 to 212, the body of the merge loop: the new item, as it is or after
  \<open>carry_over\<close>, takes the place of the record found under its key.
\<close>

definition merge_item :: "novel_dict \<Rightarrow> novel \<Rightarrow> novel_dict" where
  "merge_item existing_map item =
     (let k = novel_key item in
      case map_of existing_map k of
        None \<Rightarrow> AList.update k item existing_map
      | Some found \<Rightarrow> AList.update k (carry_over found item) existing_map)"

fun merge_new :: "novel_dict \<Rightarrow> novel list \<Rightarrow> novel_dict" where
  "merge_new m [] = m"
| "merge_new m (item # rest) = merge_new (merge_item m item) rest"

text \<open>
  \<^verbatim>\<open>merge_award_entries\<close>, lines 141 to 156: the loop of a second merge in the file, which
  neither command calls.  It keeps the record found under the key and updates it: the
  award strings are joined as in \<^verbatim>\<open>scrape\<close>, and the \<^verbatim>\<open>pov\<close> of the later record is taken
  when it is not \<^verbatim>\<open>None\<close>.  The statement after the loop is not well formed in the
  source, so the model stops at the dictionary the loop has built.
\<close>

fun merge_award_loop :: "novel_dict \<Rightarrow> novel list \<Rightarrow> novel_dict" where
  "merge_award_loop novel_map [] = novel_map"
| "merge_award_loop novel_map (novel # rest) =
     (let k = novel_key novel in
      case map_of novel_map k of
        None \<Rightarrow> merge_award_loop (AList.update k novel novel_map) rest
      | Some existing \<Rightarrow>
          (let existing1 = (if award existing \<noteq> award novel
                            then existing\<lparr>award := join ''|'' (sorted_strs [award existing, award novel])\<rparr>
                            else existing);
               existing2 = (if pov novel \<noteq> None then existing1\<lparr>pov := pov novel\<rparr> else existing1)
           in merge_award_loop (AList.update k existing2 novel_map) rest))"

text \<open>
  Lines 182 to 221 of \<^verbatim>\<open>scrape\<close>, from the two collected lists and the loaded file to
  the list handed to \<^verbatim>\<open>save_novels_to_json\<close>.
\<close>

definition scrape_merge :: "int \<Rightarrow> novel list \<Rightarrow> novel list \<Rightarrow> novel list" where
  "scrape_merge after collected loaded =
     (let combined_new = filter (\<lambda>n. year n \<ge> after) collected;
          existing_data = filter (\<lambda>n. year n \<ge> after) loaded;
          existing_map = build_map [] existing_data;
          merged_data = dict_values (merge_new existing_map combined_new)
      in sort_key year_title merged_data)"

text \<open>
  The \<^verbatim>\<open>scrape\<close> command: the two collections, then the merge with the file.  The result
  is the list written to the file, or the exception that ended the command before
  anything was written.
\<close>

definition scrape :: "int \<Rightarrow> response \<Rightarrow> response \<Rightarrow> novel list option \<Rightarrow> error + novel list" where
  "scrape after hugo_page nebula_page file =
     (case scrape_award_novels hugo_page ''Hugo'' of
        Inl e \<Rightarrow> Inl e
      | Inr hugo_data \<Rightarrow>
          (case scrape_award_novels nebula_page ''Nebula'' of
             Inl e \<Rightarrow> Inl e
           | Inr nebula_data \<Rightarrow>
               Inr (scrape_merge after (hugo_data @ nebula_data) (load_novels_from_json file))))"

section \<open>The annotator \<^verbatim>\<open>process\<close>\<close>

text \<open>
  What the command does to the outside: it opens the search page of the novel at an index
  of the list, and it writes the whole list to the file.
\<close>

datatype event = Prompted nat novel | Saved "novel list"

datatype outcome = Returned | Raised error

text \<open>\<^verbatim>\<open>not novel["pov"]\<close>: \<^verbatim>\<open>None\<close> and the empty string are false.\<close>

definition pov_unset :: "novel \<Rightarrow> bool" where
  "pov_unset n \<longleftrightarrow> pov n = None \<or> pov n = Some []"

text \<open>Lines 244 to 248: the index of the first novel without a point of view.\<close>

fun find_unprocessed :: "nat \<Rightarrow> novel list \<Rightarrow> nat option" where
  "find_unprocessed i [] = None"
| "find_unprocessed i (n # ns) = (if pov_unset n then Some i else find_unprocessed (Suc i) ns)"

text \<open>\<^verbatim>\<open>all_novels.sort(key=lambda x: x["year"], reverse=True)\<close>: stable and descending.\<close>

definition sort_year_desc :: "novel list \<Rightarrow> novel list" where
  "sort_year_desc novels = sort_key (\<lambda>x. - year x) novels"

text \<open>
  The two nested loops of lines 242 to 290.  \<open>next_novel\<close> is the head of the outer loop;
  \<open>ask\<close> is the inner loop for the novel at index \<open>idx\<close>, reading the lines the user
  types one by one, and on \<^verbatim>\<open>break\<close> goes on with the save and the next pass of the outer
  loop.  \<^verbatim>\<open>input\<close> raises \<^verbatim>\<open>EOFError\<close> when there is no line left.
\<close>

fun next_novel :: "novel list \<Rightarrow> string list \<Rightarrow> event list \<times> outcome"
  and ask :: "novel list \<Rightarrow> nat \<Rightarrow> string list \<Rightarrow> event list \<times> outcome" where
  "next_novel all_novels inputs =
     (case find_unprocessed 0 all_novels of
        None \<Rightarrow> ([], Returned)
      | Some idx \<Rightarrow>
          (let (evs, res) = ask all_novels idx inputs
           in (Prompted idx (all_novels ! idx) # evs, res)))"
| "ask all_novels idx [] = ([], Raised EOFError)"
| "ask all_novels idx (line # rest) =
     (let user_input = py_lower (py_strip line) in
      if user_input \<in> set [''quit'', ''exit''] then ([], Returned)
      else
        (let is_read = CHR ''r'' \<in> set user_input;
             pov_input = filter (\<lambda>c. c \<noteq> CHR ''r'') user_input;
             novel = all_novels ! idx
         in if pov_input = ''1'' then
              (let all_novels' = all_novels[idx := novel\<lparr>pov := Some ''first'', read := is_read\<rparr>];
                   (evs, res) = next_novel all_novels' rest
               in (Saved all_novels' # evs, res))
            else if pov_input = ''2'' then
              (let all_novels' = all_novels[idx := novel\<lparr>pov := Some ''second'', read := is_read\<rparr>];
                   (evs, res) = next_novel all_novels' rest
               in (Saved all_novels' # evs, res))
            else if pov_input = ''3'' then
              (let all_novels' = all_novels[idx := novel\<lparr>pov := Some ''third'', read := is_read\<rparr>];
                   (evs, res) = next_novel all_novels' rest
               in (Saved all_novels' # evs, res))
            else ask all_novels idx rest))"

text \<open>The \<^verbatim>\<open>process\<close> command, lines 234 to 290.\<close>

definition process :: "novel list option \<Rightarrow> string list \<Rightarrow> event list \<times> outcome" where
  "process file inputs =
     (let all_novels = load_novels_from_json file in
      if all_novels = [] then ([], Returned)
      else next_novel (sort_year_desc all_novels) inputs)"

section \<open>Predicates of the specification\<close>

text \<open>Every value of the dictionary is stored under its own key, and keys are distinct.\<close>

definition dict_ok :: "novel_dict \<Rightarrow> bool" where
  "dict_ok m \<longleftrightarrow> distinct (map fst m) \<and> (\<forall>(k, v) \<in> set m. novel_key v = k)"

text \<open>
  A record as the collector creates it: the award label asked for, a title that is not
  empty, a positive year, no point of view, not read.
\<close>

definition fresh_record :: "string \<Rightarrow> novel \<Rightarrow> bool" where
  "fresh_record award_name n \<longleftrightarrow>
     award n = award_name \<and> title n \<noteq> [] \<and> 0 < year n \<and> pov n = None \<and> \<not> read n"

text \<open>The data model's \<^verbatim>\<open>pov: optional enum{first, second, third}\<close>.\<close>

definition pov_ok :: "novel \<Rightarrow> bool" where
  "pov_ok n \<longleftrightarrow> pov n \<in> {None, Some ''first'', Some ''second'', Some ''third''}"

text \<open>
  The year cell of a body row names a retrospective award: the row has a cell in the year
  column and its text, in lower case, contains "retro".  The loop skips such a row
  (lines 110 and 111).
\<close>

definition is_retro_row :: "nat \<Rightarrow> row \<Rightarrow> bool" where
  "is_retro_row yc r \<longleftrightarrow>
     yc < length (cells r) \<and> str_contains ''retro'' (py_lower (cells r ! yc))"

text \<open>
  The year a body row states by itself: the row has a year cell, the row is not skipped,
  and the first word of the cell parses to a positive integer.  \<^verbatim>\<open>None\<close> when the year
  cell is absent or does not parse to a positive integer.
\<close>

definition parsed_year :: "nat \<Rightarrow> row \<Rightarrow> int option" where
  "parsed_year yc r =
     (if yc < length (cells r) \<and> \<not> is_retro_row yc r then
        (case py_split (cells r ! yc) of
           [] \<Rightarrow> None
         | tok # _ \<Rightarrow> if 0 < parse_int tok then Some (parse_int tok) else None)
      else None)"

text \<open>
  The most recently parsed year among the given rows of a table, zero when none of them
  states a year.
\<close>

definition last_parsed_year :: "nat \<Rightarrow> row list \<Rightarrow> int" where
  "last_parsed_year yc rows =
     (let ys = List.map_filter (parsed_year yc) rows
      in if ys = [] then 0 else last ys)"

text \<open>
  The list \<open>l\<close> is the collection \<open>coll\<close> with one of the three points of view, and a read
  flag, assigned to the record at index \<open>i\<close>, and nothing else changed.
\<close>

definition assigned_at :: "novel list \<Rightarrow> nat \<Rightarrow> novel list \<Rightarrow> bool" where
  "assigned_at coll i l \<longleftrightarrow>
     pov (l ! i) \<in> {Some ''first'', Some ''second'', Some ''third''}
     \<and> l = coll[i := (coll ! i)\<lparr>pov := pov (l ! i), read := read (l ! i)\<rparr>]"

text \<open>
  The events of a run of the annotator over the collection \<open>coll\<close>, as the specification
  has them: each prompt is for a record of the collection whose \<^verbatim>\<open>pov\<close> is not set; either
  the run ends there, or the very next event is the save of the whole collection with that
  record annotated, and the run goes on from the saved collection.
\<close>

fun prompt_then_save :: "novel list \<Rightarrow> event list \<Rightarrow> bool" where
  "prompt_then_save coll [] = True"
| "prompt_then_save coll [Prompted i n] = (i < length coll \<and> coll ! i = n \<and> pov_unset n)"
| "prompt_then_save coll (Prompted i n # Saved l # evs) =
     (i < length coll \<and> coll ! i = n \<and> pov_unset n \<and> assigned_at coll i l
      \<and> prompt_then_save l evs)"
| "prompt_then_save coll evs = False"

section \<open>Sample pages and records\<close>

definition header_row :: row where
  "header_row = \<lparr>cells = [''Year'', ''Author'', ''Novel''], i_tags = []\<rparr>"

definition willis_row :: row where
  "willis_row = \<lparr>cells = [''1993'', ''Willis'', ''Doomsday Book''], i_tags = [''Doomsday Book'']\<rparr>"

text \<open>A row under a year cell that spans several rows: its first cell is the author.\<close>

definition vinge_row :: row where
  "vinge_row = \<lparr>cells = [''Vinge'', ''A Fire Upon the Deep''],
                 i_tags = [''A Fire Upon the Deep'']\<rparr>"

definition hugo_sample :: response where
  "hugo_sample = Page [[header_row, willis_row, vinge_row]]"

definition nebula_sample :: response where
  "nebula_sample = Page [[header_row, willis_row]]"

definition dune :: novel where
  "dune = \<lparr>title = ''Dune'', award = ''Hugo'', year = 1966, pov = None, read = False\<rparr>"

definition fire_read :: novel where
  "fire_read = \<lparr>title = ''A Fire Upon the Deep'', award = ''Hugo'', year = 1993,
                 pov = Some ''third'', read = True\<rparr>"

text \<open>What a first run of \<^verbatim>\<open>scrape\<close> on the two sample pages saves when there is no file.\<close>

definition saved_sample :: "novel list" where
  "saved_sample =
     [\<lparr>title = ''A Fire Upon the Deep'', award = ''Hugo'', year = 1993, pov = None, read = False\<rparr>,
      \<lparr>title = ''Doomsday Book'', award = ''Hugo|Nebula'', year = 1993, pov = None, read = False\<rparr>]"

text \<open>What a run on the same pages saves over the file \<open>[fire_read, dune]\<close>.\<close>

definition saved_after_reading :: "novel list" where
  "saved_after_reading =
     [\<lparr>title = ''A Fire Upon the Deep'', award = ''Hugo'', year = 1993,
       pov = Some ''third'', read = False\<rparr>,
      \<lparr>title = ''Doomsday Book'', award = ''Hugo|Nebula'', year = 1993, pov = None, read = False\<rparr>]"

text \<open>What a second run on the same pages saves over the file of the first run.\<close>

definition saved_twice :: "novel list" where
  "saved_twice =
     [\<lparr>title = ''A Fire Upon the Deep'', award = ''Hugo'', year = 1993, pov = None, read = False\<rparr>,
      \<lparr>title = ''Doomsday Book'', award = ''Hugo|Hugo|Nebula|Nebula'', year = 1993,
       pov = None, read = False\<rparr>]"

text \<open>What the collector returns for the first sample page.\<close>

definition hugo_collected :: "novel list" where
  "hugo_collected =
     [\<lparr>title = ''Doomsday Book'', award = ''Hugo'', year = 1993, pov = None, read = False\<rparr>,
      \<lparr>title = ''A Fire Upon the Deep'', award = ''Hugo'', year = 1993, pov = None, read = False\<rparr>]"

text \<open>What the merge of \<open>hugo_collected\<close> into the list \<open>[fire_read, dune]\<close> gives.\<close>

definition merged_sample :: "novel list" where
  "merged_sample =
     [\<lparr>title = ''A Fire Upon the Deep'', award = ''Hugo'', year = 1993,
       pov = Some ''third'', read = False\<rparr>,
      \<lparr>title = ''Doomsday Book'', award = ''Hugo'', year = 1993, pov = None, read = False\<rparr>]"

text \<open>
  A later year under a title that sorts between the two titles of the pages, and what a
  run on the sample pages saves over a file that holds it.
\<close>

definition accelerando :: novel where
  "accelerando = \<lparr>title = ''Accelerando'', award = ''Hugo'', year = 2006,
                   pov = None, read = False\<rparr>"

definition saved_with_later_year :: "novel list" where
  "saved_with_later_year =
     [\<lparr>title = ''A Fire Upon the Deep'', award = ''Hugo'', year = 1993, pov = None, read = False\<rparr>,
      \<lparr>title = ''Doomsday Book'', award = ''Hugo|Nebula'', year = 1993, pov = None, read = False\<rparr>,
      \<lparr>title = ''Accelerando'', award = ''Hugo'', year = 2006, pov = None, read = False\<rparr>]"

text \<open>Three lines typed at the prompts of \<^verbatim>\<open>process\<close>, and what the command does with them.\<close>

definition typed_lines :: "string list" where
  "typed_lines = [''x'', '' R1 '', ''quit'']"

definition annotated_sample :: "novel list" where
  "annotated_sample =
     [\<lparr>title = ''A Fire Upon the Deep'', award = ''Hugo'', year = 1993,
       pov = Some ''first'', read = True\<rparr>,
      \<lparr>title = ''Doomsday Book'', award = ''Hugo|Nebula'', year = 1993, pov = None, read = False\<rparr>]"

definition trace_sample :: "event list" where
  "trace_sample =
     [Prompted 0 (saved_sample ! 0), Saved annotated_sample, Prompted 1 (saved_sample ! 1)]"

section \<open>Properties of the merge\<close>

lemma dict_ok_empty: "dict_ok []"
  by (simp add: dict_ok_def)

lemma set_update_subset: "set (AList.update k v m) \<subseteq> insert (k, v) (set m)"
  by (induction m) auto

lemma dict_ok_update:
  assumes "dict_ok m" and "novel_key v = k"
  shows "dict_ok (AList.update k v m)"
proof -
  have "distinct (map fst (AList.update k v m))"
    using assms(1) by (simp add: dict_ok_def distinct_update)
  moreover have "\<forall>(k', v') \<in> set (AList.update k v m). novel_key v' = k'"
    using assms set_update_subset [of k v m] by (auto simp: dict_ok_def)
  ultimately show ?thesis by (simp add: dict_ok_def)
qed

lemma dict_ok_build_map: "dict_ok m \<Longrightarrow> dict_ok (build_map m xs)"
  by (induction xs arbitrary: m) (simp_all add: dict_ok_update)

lemma carry_over_fixed [simp]:
  "title (carry_over found item) = title item"
  "year (carry_over found item) = year item"
  "read (carry_over found item) = read item"
  "novel_key (carry_over found item) = novel_key item"
  by (simp_all add: carry_over_def novel_key_def Let_def)

lemma dict_ok_merge_item: "dict_ok m \<Longrightarrow> dict_ok (merge_item m item)"
  by (simp add: merge_item_def Let_def dict_ok_update split: option.splits)

lemma dict_ok_merge_new: "dict_ok m \<Longrightarrow> dict_ok (merge_new m xs)"
  by (induction xs arbitrary: m) (simp_all add: dict_ok_merge_item)

lemma dict_ok_distinct_keys:
  assumes "dict_ok m"
  shows "distinct (map novel_key (dict_values m))"
proof -
  have "map novel_key (dict_values m) = map fst m"
    using assms by (auto simp: dict_ok_def dict_values_def)
  then show ?thesis using assms by (simp add: dict_ok_def)
qed

lemma distinct_map_insort_key:
  "distinct (map g (insort_key f x xs)) \<longleftrightarrow> g x \<notin> g ` set xs \<and> distinct (map g xs)"
  by (induction xs) (auto simp: set_insort_key)

lemma distinct_map_sort_key:
  "distinct (map g (sort_key f xs)) \<longleftrightarrow> distinct (map g xs)"
  by (induction xs) (simp_all add: distinct_map_insort_key)

lemma keys_merge_item: "k \<in> fst ` set m \<Longrightarrow> k \<in> fst ` set (merge_item m item)"
proof -
  assume k: "k \<in> fst ` set m"
  have "\<And>k' v. k \<in> set (map fst (AList.update k' v m))"
    using k by (simp add: update_keys)
  then show ?thesis
    by (simp add: merge_item_def Let_def split: option.splits)
qed

lemma keys_merge_new: "k \<in> fst ` set m \<Longrightarrow> k \<in> fst ` set (merge_new m xs)"
  by (induction xs arbitrary: m) (simp_all add: keys_merge_item)

lemma keys_build_map_keep: "k \<in> fst ` set m \<Longrightarrow> k \<in> fst ` set (build_map m xs)"
proof (induction xs arbitrary: m)
  case Nil
  then show ?case by simp
next
  case (Cons x xs)
  have "k \<in> set (map fst (AList.update (novel_key x) x m))"
    using Cons.prems by (simp add: update_keys)
  then show ?case using Cons.IH by simp
qed

lemma keys_build_map: "e \<in> set xs \<Longrightarrow> novel_key e \<in> fst ` set (build_map m xs)"
proof (induction xs arbitrary: m)
  case Nil
  then show ?case by simp
next
  case (Cons x xs)
  show ?case
  proof (cases "e = x")
    case True
    have "novel_key x \<in> set (map fst (AList.update (novel_key x) x m))"
      by (simp add: update_keys)
    then show ?thesis using True keys_build_map_keep by simp
  next
    case False
    then show ?thesis using Cons by simp
  qed
qed

lemma map_of_build_map_other:
  "k \<notin> novel_key ` set xs \<Longrightarrow> map_of (build_map m xs) k = map_of m k"
  by (induction xs arbitrary: m) (auto simp: update_conv')

lemma map_of_build_map:
  "distinct (map novel_key xs) \<Longrightarrow> e \<in> set xs \<Longrightarrow> map_of (build_map m xs) (novel_key e) = Some e"
proof (induction xs arbitrary: m)
  case Nil
  then show ?case by simp
next
  case (Cons x xs)
  show ?case
  proof (cases "e = x")
    case True
    then have "novel_key e \<notin> novel_key ` set xs" using Cons.prems(1) by simp
    then show ?thesis using True by (simp add: map_of_build_map_other update_conv')
  next
    case False
    then show ?thesis using Cons by simp
  qed
qed

lemma values_update:
  "\<forall>x \<in> set m. P (snd x) \<Longrightarrow> P v \<Longrightarrow> \<forall>x \<in> set (AList.update k v m). P (snd x)"
  using set_update_subset [of k v m] by auto

lemma values_build_map:
  "\<forall>x \<in> set m. P (snd x) \<Longrightarrow> \<forall>n \<in> set xs. P n \<Longrightarrow> \<forall>x \<in> set (build_map m xs). P (snd x)"
proof (induction xs arbitrary: m)
  case Nil
  then show ?case by simp
next
  case (Cons x xs)
  have "\<forall>y \<in> set (AList.update (novel_key x) x m). P (snd y)"
    using Cons.prems by (intro values_update) simp_all
  then show ?case using Cons by simp
qed

lemma year_merge_item:
  assumes "\<forall>x \<in> set m. after \<le> year (snd x)" and "after \<le> year item"
  shows "\<forall>x \<in> set (merge_item m item). after \<le> year (snd x)"
proof (cases "map_of m (novel_key item)")
  case None
  have "\<forall>x \<in> set (AList.update (novel_key item) item m). after \<le> year (snd x)"
    using assms by (intro values_update) simp_all
  then show ?thesis using None by (simp add: merge_item_def)
next
  case (Some found)
  have "\<forall>x \<in> set (AList.update (novel_key item) (carry_over found item) m). after \<le> year (snd x)"
    using assms by (intro values_update) simp_all
  then show ?thesis using Some by (simp add: merge_item_def)
qed

lemma year_merge_new:
  "\<forall>x \<in> set m. after \<le> year (snd x) \<Longrightarrow> \<forall>n \<in> set xs. after \<le> year n
   \<Longrightarrow> \<forall>x \<in> set (merge_new m xs). after \<le> year (snd x)"
proof (induction xs arbitrary: m)
  case Nil
  then show ?case by simp
next
  case (Cons x xs)
  have "\<forall>y \<in> set (merge_item m x). after \<le> year (snd y)"
    using Cons.prems by (intro year_merge_item) simp_all
  then show ?case using Cons by simp
qed

lemma scrape_merge_years: "\<forall>r \<in> set (scrape_merge after collected loaded). after \<le> year r"
proof -
  let ?old = "filter (\<lambda>n. after \<le> year n) loaded"
  let ?new = "filter (\<lambda>n. after \<le> year n) collected"
  have "\<forall>x \<in> set (build_map [] ?old). after \<le> year (snd x)"
    by (rule values_build_map) simp_all
  then have "\<forall>x \<in> set (merge_new (build_map [] ?old) ?new). after \<le> year (snd x)"
    by (rule year_merge_new) simp
  then show ?thesis
    by (simp add: scrape_merge_def dict_values_def)
qed

lemma scrape_merge_sorted:
  "sorted (map (\<lambda>x. (year x, title x)) (scrape_merge after collected loaded))"
proof -
  have "sorted (map year_title (scrape_merge after collected loaded))"
    by (simp add: scrape_merge_def)
  moreover have "year_title = (\<lambda>x. (year x, title x))"
    by (rule ext) (simp add: year_title_def)
  ultimately show ?thesis by simp
qed

lemma scrape_merge_distinct: "distinct (map novel_key (scrape_merge after collected loaded))"
  by (simp add: scrape_merge_def distinct_map_sort_key dict_ok_distinct_keys
      dict_ok_merge_new dict_ok_build_map dict_ok_empty)

lemma scrape_merge_keeps_key:
  assumes "e \<in> set loaded" and "after \<le> year e"
  shows "novel_key e \<in> novel_key ` set (scrape_merge after collected loaded)"
proof -
  let ?old = "filter (\<lambda>n. after \<le> year n) loaded"
  let ?new = "filter (\<lambda>n. after \<le> year n) collected"
  let ?m = "merge_new (build_map [] ?old) ?new"
  have "e \<in> set ?old" using assms by simp
  then have "novel_key e \<in> fst ` set ?m"
    by (intro keys_merge_new keys_build_map)
  moreover have "dict_ok ?m"
    by (simp add: dict_ok_merge_new dict_ok_build_map dict_ok_empty)
  ultimately have "novel_key e \<in> novel_key ` snd ` set ?m"
    by (force simp: dict_ok_def)
  then show ?thesis
    by (simp add: scrape_merge_def dict_values_def image_image)
qed

lemma pov_carry_over:
  "pov (carry_over found item) = (if pov found \<noteq> None then pov found else pov item)"
  by (simp add: carry_over_def Let_def)

lemma pov_merge_item:
  assumes "map_of m k = Some v" and "pov v = p" and "p \<noteq> None \<or> pov item = None"
  shows "\<exists>v'. map_of (merge_item m item) k = Some v' \<and> pov v' = p"
proof (cases "novel_key item = k")
  case True
  then have "map_of (merge_item m item) k = Some (carry_over v item)"
    using assms(1) by (simp add: merge_item_def update_conv')
  moreover have "pov (carry_over v item) = p"
    using assms(2,3) by (auto simp: pov_carry_over)
  ultimately show ?thesis by simp
next
  case False
  then have "map_of (merge_item m item) k = map_of m k"
    by (simp add: merge_item_def Let_def update_conv' split: option.splits)
  then show ?thesis using assms(1,2) by simp
qed

lemma pov_merge_new:
  assumes "map_of m k = Some v" and "pov v = p"
    and "p \<noteq> None \<or> (\<forall>item \<in> set xs. pov item = None)"
  shows "\<exists>v'. map_of (merge_new m xs) k = Some v' \<and> pov v' = p"
  using assms
proof (induction xs arbitrary: m v)
  case Nil
  then show ?case by simp
next
  case (Cons x xs)
  from Cons.prems have "p \<noteq> None \<or> pov x = None" by auto
  with Cons.prems(1,2) obtain v' where
    "map_of (merge_item m x) k = Some v'" and "pov v' = p"
    using pov_merge_item by blast
  moreover have "p \<noteq> None \<or> (\<forall>item \<in> set xs. pov item = None)"
    using Cons.prems(3) by auto
  ultimately show ?case using Cons.IH by simp
qed

lemma dict_ok_lookup:
  assumes "dict_ok m" and "r \<in> snd ` set m"
  shows "map_of m (novel_key r) = Some r"
proof -
  from assms(2) obtain k where kr: "(k, r) \<in> set m" by auto
  then have "k = novel_key r" using assms(1) by (auto simp: dict_ok_def)
  then show ?thesis using kr assms(1) by (simp add: dict_ok_def)
qed

lemma scrape_merge_pov:
  assumes "distinct (map novel_key loaded)" and "e \<in> set loaded"
    and "pov e \<noteq> None \<or> (\<forall>n \<in> set collected. pov n = None)"
    and "r \<in> set (scrape_merge after collected loaded)" and "novel_key r = novel_key e"
  shows "pov r = pov e"
proof -
  let ?old = "filter (\<lambda>n. after \<le> year n) loaded"
  let ?new = "filter (\<lambda>n. after \<le> year n) collected"
  let ?m = "merge_new (build_map [] ?old) ?new"
  have ok: "dict_ok ?m"
    by (simp add: dict_ok_merge_new dict_ok_build_map dict_ok_empty)
  have r: "r \<in> snd ` set ?m"
    using assms(4) by (simp add: scrape_merge_def dict_values_def)
  then have look: "map_of ?m (novel_key e) = Some r"
    using dict_ok_lookup [OF ok] assms(5) by metis
  have "after \<le> year r"
    using assms(4) scrape_merge_years by blast
  then have "after \<le> year e"
    using assms(5) by (simp add: novel_key_def)
  then have "e \<in> set ?old" using assms(2) by simp
  moreover have "distinct (map novel_key ?old)"
    using assms(1) by (simp add: distinct_map_filter)
  ultimately have "map_of (build_map [] ?old) (novel_key e) = Some e"
    by (simp add: map_of_build_map)
  moreover have "pov e \<noteq> None \<or> (\<forall>n \<in> set ?new. pov n = None)"
    using assms(3) by auto
  ultimately obtain v' where "map_of ?m (novel_key e) = Some v'" and "pov v' = pov e"
    using pov_merge_new [of "build_map [] ?old" "novel_key e" e "pov e" ?new] by blast
  then show ?thesis using look by simp
qed

section \<open>The integer literal\<close>

text \<open>A literal with more digits than the limit is refused, whatever its digits are.\<close>

lemma unsigned_int_limit:
  "length (filter is_digit s) > max_str_digits \<Longrightarrow> unsigned_int s = None"
  by (simp add: unsigned_int_def split: list.splits option.splits)

text \<open>A separator from 28 to 31 before the digits makes the literal invalid.\<close>

lemma py_int_separator: "py_int [char_of (28::nat), CHR ''5''] = None"
  by code_simp

section \<open>Properties of the collector\<close>

lemma row_records_fresh:
  "0 \<le> cy \<Longrightarrow> \<forall>n \<in> set (row_records a cy r). fresh_record a n \<and> year n = cy"
  by (auto simp: row_records_def fresh_record_def)

lemma scrape_row_fresh:
  assumes "scrape_row yc a cy r = Inr (cy', recs)" and "0 \<le> cy"
  shows "0 \<le> cy' \<and> (\<forall>n \<in> set recs. fresh_record a n \<and> year n = cy')"
proof (cases "yc < length (cells r)")
  case False
  then show ?thesis using assms row_records_fresh [of cy a r]
    by (auto simp: scrape_row_def)
next
  case True
  show ?thesis
  proof (cases "str_contains ''retro'' (py_lower (cells r ! yc))")
    case True
    then show ?thesis using assms \<open>yc < length (cells r)\<close>
      by (auto simp: scrape_row_def)
  next
    case False
    then obtain tok rest where sp: "py_split (cells r ! yc) = tok # rest"
      using assms(1) True by (cases "py_split (cells r ! yc)") (auto simp: scrape_row_def)
    let ?cy = "if 0 < parse_int tok then parse_int tok else cy"
    have "cy' = ?cy" "recs = row_records a ?cy r"
      using assms(1) True False sp by (auto simp: scrape_row_def Let_def)
    moreover have "0 \<le> ?cy" using assms(2) by simp
    ultimately show ?thesis using row_records_fresh [of ?cy a r] by simp
  qed
qed

lemma scrape_rows_fresh:
  assumes "scrape_rows yc a cy acc rows = Inr (cy', out)" and "0 \<le> cy"
    and "\<forall>n \<in> set acc. fresh_record a n"
  shows "\<forall>n \<in> set out. fresh_record a n"
  using assms
proof (induction rows arbitrary: cy acc)
  case Nil
  then show ?case by simp
next
  case (Cons r rows)
  from Cons.prems(1) obtain cy1 recs where
    step: "scrape_row yc a cy r = Inr (cy1, recs)"
    and rest: "scrape_rows yc a cy1 (acc @ recs) rows = Inr (cy', out)"
    by (auto split: sum.splits)
  have "0 \<le> cy1" "\<forall>n \<in> set recs. fresh_record a n"
    using scrape_row_fresh [OF step Cons.prems(2)] by simp_all
  then show ?case using Cons.IH [OF rest] Cons.prems(3) by auto
qed

lemma scrape_table_fresh:
  assumes "scrape_table a acc t = Inr out" and "\<forall>n \<in> set acc. fresh_record a n"
  shows "\<forall>n \<in> set out. fresh_record a n"
proof (cases t)
  case Nil
  then show ?thesis using assms by (simp add: scrape_table_def)
next
  case (Cons header body)
  show ?thesis
  proof (cases "is_retro_header (cells header) \<or> find_year_col 0 (cells header) = None")
    case True
    then have "out = acc" using assms(1) Cons
      by (auto simp: scrape_table_def split: if_splits)
    then show ?thesis using assms(2) by simp
  next
    case False
    then obtain yc where yc: "find_year_col 0 (cells header) = Some yc" by auto
    with False assms(1) Cons obtain cy' where
      "scrape_rows yc a 0 acc body = Inr (cy', out)"
      by (auto simp: scrape_table_def split: sum.splits)
    then show ?thesis using scrape_rows_fresh assms(2) by blast
  qed
qed

lemma scrape_tables_fresh:
  "scrape_tables a acc ts = Inr out \<Longrightarrow> \<forall>n \<in> set acc. fresh_record a n
   \<Longrightarrow> \<forall>n \<in> set out. fresh_record a n"
proof (induction ts arbitrary: acc)
  case Nil
  then show ?case by simp
next
  case (Cons t ts)
  from Cons.prems(1) obtain acc1 where
    t: "scrape_table a acc t = Inr acc1" and ts: "scrape_tables a acc1 ts = Inr out"
    by (auto split: sum.splits)
  have "\<forall>n \<in> set acc1. fresh_record a n"
    using scrape_table_fresh [OF t Cons.prems(2)] .
  then show ?case using Cons.IH [OF ts] by simp
qed

lemma collector_fresh:
  "scrape_award_novels resp award_name = Inr out \<Longrightarrow> \<forall>n \<in> set out. fresh_record award_name n"
  using scrape_tables_fresh [of award_name "[]" _ out]
  by (auto simp: scrape_award_novels_def split: response.splits)

text \<open>The year in force after some rows, and the rows without a year of their own.\<close>

lemma scrape_row_year:
  assumes "scrape_row yc a cy r = Inr (cy', recs)"
  shows "cy' = (case parsed_year yc r of Some y \<Rightarrow> y | None \<Rightarrow> cy)"
  using assms
  by (auto simp: scrape_row_def parsed_year_def is_retro_row_def Let_def
      split: if_splits list.splits)

lemma scrape_row_no_year:
  assumes "scrape_row yc a cy r = Inr (cy', recs)" and "parsed_year yc r = None"
  shows "cy' = cy \<and> recs = (if is_retro_row yc r then [] else row_records a cy r)"
  using assms
  by (auto simp: scrape_row_def parsed_year_def is_retro_row_def Let_def
      split: if_splits list.splits)

lemma scrape_rows_append:
  "scrape_rows yc a cy acc (xs @ ys) =
     (case scrape_rows yc a cy acc xs of
        Inl e \<Rightarrow> Inl e
      | Inr (cy', acc') \<Rightarrow> scrape_rows yc a cy' acc' ys)"
  by (induction xs arbitrary: cy acc) (auto split: sum.splits)

lemma scrape_rows_year:
  assumes "scrape_rows yc a cy acc rows = Inr (cy', out)"
  shows "cy' = (let ys = List.map_filter (parsed_year yc) rows
                in if ys = [] then cy else last ys)"
  using assms
proof (induction rows arbitrary: cy acc)
  case Nil
  then show ?case by (simp add: map_filter_simps)
next
  case (Cons r rows)
  from Cons.prems obtain cy1 recs where
    step: "scrape_row yc a cy r = Inr (cy1, recs)"
    and rest: "scrape_rows yc a cy1 (acc @ recs) rows = Inr (cy', out)"
    by (auto split: sum.splits)
  have cy1: "cy1 = (case parsed_year yc r of Some y \<Rightarrow> y | None \<Rightarrow> cy)"
    using scrape_row_year [OF step] .
  show ?case
    using Cons.IH [OF rest] cy1
    by (cases "parsed_year yc r") (simp_all add: map_filter_simps Let_def)
qed

section \<open>The loop of \<^verbatim>\<open>merge_award_entries\<close>\<close>

text \<open>A \<^verbatim>\<open>pov\<close> that is set stays set, and a third record under a key repeats a label.\<close>

lemma merge_award_loop_pov:
  "map_of m k = Some v \<Longrightarrow> pov v \<noteq> None \<Longrightarrow>
   \<exists>v'. map_of (merge_award_loop m xs) k = Some v' \<and> pov v' \<noteq> None"
proof (induction xs arbitrary: m v)
  case Nil
  then show ?case by simp
next
  case (Cons x xs)
  show ?case
  proof (cases "novel_key x = k")
    case False
    then have "\<And>w. map_of (AList.update (novel_key x) w m) k = Some v"
      using Cons.prems(1) by (simp add: update_conv')
    then show ?thesis using Cons.IH [OF _ Cons.prems(2)]
      by (simp add: Let_def split: option.splits)
  next
    case True
    let ?e1 = "if award v \<noteq> award x
               then v\<lparr>award := join ''|'' (sorted_strs [award v, award x])\<rparr> else v"
    let ?e2 = "if pov x \<noteq> None then ?e1\<lparr>pov := pov x\<rparr> else ?e1"
    have "map_of (AList.update k ?e2 m) k = Some ?e2" by (simp add: update_conv')
    moreover have "pov ?e2 \<noteq> None" using Cons.prems(2) by auto
    ultimately have "\<exists>v'. map_of (merge_award_loop (AList.update k ?e2 m) xs) k = Some v'
        \<and> pov v' \<noteq> None"
      by (rule Cons.IH)
    then show ?thesis using True Cons.prems(1) by (simp add: Let_def)
  qed
qed

text \<open>The record found under a key stays there with its \<^verbatim>\<open>read\<close> value.\<close>

lemma merge_award_loop_read:
  "map_of m k = Some v \<Longrightarrow>
   \<exists>v'. map_of (merge_award_loop m xs) k = Some v' \<and> read v' = read v"
proof (induction xs arbitrary: m v)
  case Nil
  then show ?case by simp
next
  case (Cons x xs)
  show ?case
  proof (cases "novel_key x = k")
    case False
    then have "\<And>w. map_of (AList.update (novel_key x) w m) k = Some v"
      using Cons.prems by (simp add: update_conv')
    then show ?thesis using Cons.IH
      by (simp add: Let_def split: option.splits)
  next
    case True
    let ?e1 = "if award v \<noteq> award x
               then v\<lparr>award := join ''|'' (sorted_strs [award v, award x])\<rparr> else v"
    let ?e2 = "if pov x \<noteq> None then ?e1\<lparr>pov := pov x\<rparr> else ?e1"
    have "map_of (AList.update k ?e2 m) k = Some ?e2" by (simp add: update_conv')
    then have "\<exists>v'. map_of (merge_award_loop (AList.update k ?e2 m) xs) k = Some v'
        \<and> read v' = read ?e2"
      by (rule Cons.IH)
    moreover have "read ?e2 = read v" by simp
    ultimately show ?thesis using True Cons.prems by (simp add: Let_def)
  qed
qed

lemma merge_award_loop_sample:
  "map award (dict_values (merge_award_loop []
      [hugo_collected ! 0, (hugo_collected ! 0)\<lparr>award := ''Nebula''\<rparr>, hugo_collected ! 0]))
   = [''Hugo|Hugo|Nebula'']"
  by code_simp

section \<open>The point of view in the merge\<close>

lemma pov_ok_carry_over: "pov_ok found \<Longrightarrow> pov_ok item \<Longrightarrow> pov_ok (carry_over found item)"
  by (simp add: pov_ok_def pov_carry_over)

lemma pov_ok_merge_item:
  assumes "\<forall>x \<in> set m. pov_ok (snd x)" and "pov_ok item"
  shows "\<forall>x \<in> set (merge_item m item). pov_ok (snd x)"
proof (cases "map_of m (novel_key item)")
  case None
  have "\<forall>x \<in> set (AList.update (novel_key item) item m). pov_ok (snd x)"
    using assms by (intro values_update) simp_all
  then show ?thesis using None by (simp add: merge_item_def)
next
  case (Some found)
  then have "(novel_key item, found) \<in> set m" by (rule map_of_SomeD)
  then have "pov_ok found" using assms(1) by force
  then have "pov_ok (carry_over found item)" using assms(2) by (rule pov_ok_carry_over)
  then have "\<forall>x \<in> set (AList.update (novel_key item) (carry_over found item) m). pov_ok (snd x)"
    using assms(1) by (intro values_update) simp_all
  then show ?thesis using Some by (simp add: merge_item_def)
qed

lemma pov_ok_merge_new:
  "\<forall>x \<in> set m. pov_ok (snd x) \<Longrightarrow> \<forall>n \<in> set xs. pov_ok n
   \<Longrightarrow> \<forall>x \<in> set (merge_new m xs). pov_ok (snd x)"
proof (induction xs arbitrary: m)
  case Nil
  then show ?case by simp
next
  case (Cons x xs)
  have "\<forall>y \<in> set (merge_item m x). pov_ok (snd y)"
    using Cons.prems by (intro pov_ok_merge_item) simp_all
  then show ?case using Cons by simp
qed

lemma scrape_merge_pov_ok:
  assumes "\<forall>n \<in> set collected. pov_ok n" and "\<forall>n \<in> set loaded. pov_ok n"
  shows "\<forall>r \<in> set (scrape_merge after collected loaded). pov_ok r"
proof -
  let ?old = "filter (\<lambda>n. after \<le> year n) loaded"
  let ?new = "filter (\<lambda>n. after \<le> year n) collected"
  have "\<forall>x \<in> set (build_map [] ?old). pov_ok (snd x)"
    using assms(2) by (intro values_build_map) simp_all
  then have "\<forall>x \<in> set (merge_new (build_map [] ?old) ?new). pov_ok (snd x)"
    using assms(1) by (intro pov_ok_merge_new) simp_all
  then show ?thesis
    by (simp add: scrape_merge_def dict_values_def)
qed

lemma fresh_pov_ok: "fresh_record a n \<Longrightarrow> pov_ok n"
  by (simp add: fresh_record_def pov_ok_def)

section \<open>Properties of the annotator\<close>

lemma find_unprocessed_Some:
  "find_unprocessed i xs = Some idx \<Longrightarrow>
     i \<le> idx \<and> idx - i < length xs \<and> pov_unset (xs ! (idx - i))"
proof (induction xs arbitrary: i)
  case Nil
  then show ?case by simp
next
  case (Cons x xs)
  show ?case
  proof (cases "pov_unset x")
    case True
    then show ?thesis using Cons.prems by simp
  next
    case False
    then have "find_unprocessed (Suc i) xs = Some idx" using Cons.prems by simp
    from Cons.IH [OF this] have "Suc i \<le> idx" "idx - Suc i < length xs"
      "pov_unset (xs ! (idx - Suc i))" by simp_all
    moreover from this have "idx - i = Suc (idx - Suc i)" by arith
    ultimately show ?thesis by simp
  qed
qed

declare next_novel.simps [simp del]

lemma next_novel_None:
  "find_unprocessed 0 all_novels = None \<Longrightarrow> next_novel all_novels inputs = ([], Returned)"
  by (simp add: next_novel.simps)

lemma next_novel_Some:
  "find_unprocessed 0 all_novels = Some idx \<Longrightarrow>
   next_novel all_novels inputs =
     (Prompted idx (all_novels ! idx) # fst (ask all_novels idx inputs),
      snd (ask all_novels idx inputs))"
  by (simp add: next_novel.simps split_beta)

text \<open>The four ways one typed line can go.\<close>

lemma ask_line:
  fixes all_novels idx line rest
  defines "u \<equiv> py_lower (py_strip line)"
  defines "choice \<equiv> filter (\<lambda>c. c \<noteq> CHR ''r'') u"
  defines "assigned \<equiv> \<lambda>p. all_novels[idx := (all_novels ! idx)\<lparr>pov := Some p, read := CHR ''r'' \<in> set u\<rparr>]"
  shows "u \<in> set [''quit'', ''exit''] \<Longrightarrow> ask all_novels idx (line # rest) = ([], Returned)"
    and "u \<notin> set [''quit'', ''exit''] \<Longrightarrow> choice = ''1'' \<Longrightarrow>
         ask all_novels idx (line # rest) =
           (Saved (assigned ''first'') # fst (next_novel (assigned ''first'') rest),
            snd (next_novel (assigned ''first'') rest))"
    and "u \<notin> set [''quit'', ''exit''] \<Longrightarrow> choice = ''2'' \<Longrightarrow>
         ask all_novels idx (line # rest) =
           (Saved (assigned ''second'') # fst (next_novel (assigned ''second'') rest),
            snd (next_novel (assigned ''second'') rest))"
    and "u \<notin> set [''quit'', ''exit''] \<Longrightarrow> choice = ''3'' \<Longrightarrow>
         ask all_novels idx (line # rest) =
           (Saved (assigned ''third'') # fst (next_novel (assigned ''third'') rest),
            snd (next_novel (assigned ''third'') rest))"
    and "u \<notin> set [''quit'', ''exit''] \<Longrightarrow> choice \<noteq> ''1'' \<Longrightarrow> choice \<noteq> ''2'' \<Longrightarrow>
         choice \<noteq> ''3'' \<Longrightarrow> ask all_novels idx (line # rest) = ask all_novels idx rest"
  unfolding u_def choice_def assigned_def
  by (simp_all add: Let_def split_beta)

lemma save_step:
  assumes "idx < length coll" and "pov_unset (coll ! idx)"
    and "p \<in> {''first'', ''second'', ''third''}"
    and "prompt_then_save (coll[idx := (coll ! idx)\<lparr>pov := Some p, read := r\<rparr>]) evs"
  shows "prompt_then_save coll
           (Prompted idx (coll ! idx) # Saved (coll[idx := (coll ! idx)\<lparr>pov := Some p, read := r\<rparr>]) # evs)"
  using assms by (auto simp: assigned_at_def)

lemma trace_shape:
  "prompt_then_save all_novels (fst (next_novel all_novels inputs))"
  "idx < length all_novels \<Longrightarrow> pov_unset (all_novels ! idx) \<Longrightarrow>
   prompt_then_save all_novels (Prompted idx (all_novels ! idx) # fst (ask all_novels idx inputs))"
proof (induction all_novels inputs and all_novels idx inputs rule: next_novel_ask.induct)
  case (1 all_novels inputs)
  show ?case
  proof (cases "find_unprocessed 0 all_novels")
    case None
    then show ?thesis by (simp add: next_novel_None)
  next
    case (Some idx)
    from find_unprocessed_Some [OF Some]
    have "idx < length all_novels" "pov_unset (all_novels ! idx)" by simp_all
    from 1 [OF Some this] show ?thesis by (simp add: next_novel_Some [OF Some])
  qed
next
  case (2 all_novels idx)
  then show ?case by simp
next
  case (3 all_novels idx line rest)
  let ?u = "py_lower (py_strip line)"
  let ?choice = "filter (\<lambda>c. c \<noteq> CHR ''r'') ?u"
  let ?assigned = "\<lambda>p. all_novels[idx := (all_novels ! idx)\<lparr>pov := Some p, read := CHR ''r'' \<in> set ?u\<rparr>]"
  note idx = "3.prems"
  show ?case
  proof (cases "?u \<in> set [''quit'', ''exit'']")
    case True
    have "prompt_then_save all_novels [Prompted idx (all_novels ! idx)]"
      using idx by simp
    then show ?thesis
      unfolding ask_line(1) [OF True] fst_conv .
  next
    case False
    consider (one) "?choice = ''1''" | (two) "?choice \<noteq> ''1''" "?choice = ''2''"
      | (three) "?choice \<noteq> ''1''" "?choice \<noteq> ''2''" "?choice = ''3''"
      | (other) "?choice \<noteq> ''1''" "?choice \<noteq> ''2''" "?choice \<noteq> ''3''"
      by blast
    then show ?thesis
    proof cases
      case one
      have "prompt_then_save (?assigned ''first'') (fst (next_novel (?assigned ''first'') rest))"
        using "3.IH"(1) [OF refl False refl refl refl one refl] .
      then have "prompt_then_save all_novels
          (Prompted idx (all_novels ! idx) # Saved (?assigned ''first'')
             # fst (next_novel (?assigned ''first'') rest))"
        by (intro save_step idx) simp_all
      then show ?thesis
        unfolding ask_line(2) [OF False one] fst_conv .
    next
      case two
      have "prompt_then_save (?assigned ''second'') (fst (next_novel (?assigned ''second'') rest))"
        using "3.IH"(2) [OF refl False refl refl refl two refl] .
      then have "prompt_then_save all_novels
          (Prompted idx (all_novels ! idx) # Saved (?assigned ''second'')
             # fst (next_novel (?assigned ''second'') rest))"
        by (intro save_step idx) simp_all
      then show ?thesis
        unfolding ask_line(3) [OF False two(2)] fst_conv .
    next
      case three
      have "prompt_then_save (?assigned ''third'') (fst (next_novel (?assigned ''third'') rest))"
        using "3.IH"(3) [OF refl False refl refl refl three refl] .
      then have "prompt_then_save all_novels
          (Prompted idx (all_novels ! idx) # Saved (?assigned ''third'')
             # fst (next_novel (?assigned ''third'') rest))"
        by (intro save_step idx) simp_all
      then show ?thesis
        unfolding ask_line(4) [OF False three(3)] fst_conv .
    next
      case other
      have "prompt_then_save all_novels (Prompted idx (all_novels ! idx) # fst (ask all_novels idx rest))"
        using "3.IH"(4) [OF refl False refl refl refl other idx] .
      then show ?thesis
        unfolding ask_line(5) [OF False other] .
    qed
  qed
qed

lemma trace_pov_ok:
  "prompt_then_save coll evs \<Longrightarrow> \<forall>n \<in> set coll. pov_ok n \<Longrightarrow>
     (\<forall>l. Saved l \<in> set evs \<longrightarrow> (\<forall>n \<in> set l. pov_ok n))
     \<and> (\<forall>i n. Prompted i n \<in> set evs \<longrightarrow> pov n = None)"
proof (induction coll evs rule: prompt_then_save.induct)
  case (1 coll)
  then show ?case by simp
next
  case (2 coll i n)
  then have "pov_ok n" "pov_unset n" by auto
  then have "pov n = None" by (auto simp: pov_ok_def pov_unset_def)
  then show ?case by simp
next
  case (3 coll i n l evs)
  from "3.prems"(1) have i: "i < length coll" "coll ! i = n" and un: "pov_unset n"
    and asg: "assigned_at coll i l" and rest: "prompt_then_save l evs"
    by simp_all
  have "pov_ok n" using i "3.prems"(2) by auto
  then have none: "pov n = None" using un by (auto simp: pov_ok_def pov_unset_def)
  obtain x where l: "l = coll[i := x]" and x: "pov x = pov (l ! i)"
    using asg by (auto simp: assigned_at_def)
  have "pov_ok x" using asg x by (auto simp: assigned_at_def pov_ok_def)
  then have lok: "\<forall>n \<in> set l. pov_ok n"
    using l "3.prems"(2) set_update_subset_insert [of coll i x] by auto
  from "3.IH" [OF rest lok] none lok show ?case by auto
qed simp_all

lemma process_trace:
  "prompt_then_save (sort_year_desc (load_novels_from_json file)) (fst (process file inputs))"
  using trace_shape(1) by (simp add: process_def Let_def del: next_novel.simps)

text \<open>The annotator changes no title and no year, so the keys of a saved list stay distinct.\<close>

lemma assigned_at_keys:
  assumes "assigned_at coll i l" and "i < length coll"
  shows "map novel_key l = map novel_key coll"
proof -
  let ?x = "(coll ! i)\<lparr>pov := pov (l ! i), read := read (l ! i)\<rparr>"
  have "l = coll[i := ?x]" using assms(1) by (simp add: assigned_at_def)
  then have "map novel_key l = (map novel_key coll)[i := novel_key ?x]"
    by (metis map_update)
  also have "novel_key ?x = map novel_key coll ! i"
    using assms(2) by (simp add: novel_key_def)
  finally show ?thesis by simp
qed

lemma trace_keys:
  "prompt_then_save coll evs \<Longrightarrow> Saved l \<in> set evs \<Longrightarrow> map novel_key l = map novel_key coll"
proof (induction coll evs rule: prompt_then_save.induct)
  case (3 coll i n l' evs)
  from "3.prems"(1) have asg: "assigned_at coll i l'" and i: "i < length coll"
    and rest: "prompt_then_save l' evs"
    by simp_all
  have same: "map novel_key l' = map novel_key coll"
    using asg i by (rule assigned_at_keys)
  show ?case
  proof (cases "l = l'")
    case True
    then show ?thesis using same by simp
  next
    case False
    then have "Saved l \<in> set evs" using "3.prems"(2) by simp
    from "3.IH" [OF rest this] same show ?thesis by simp
  qed
qed simp_all

lemma process_saves_distinct:
  assumes "distinct (map novel_key (load_novels_from_json file))"
    and "Saved l \<in> set (fst (process file inputs))"
  shows "distinct (map novel_key l)"
proof -
  have "map novel_key l = map novel_key (sort_year_desc (load_novels_from_json file))"
    using trace_keys [OF process_trace assms(2)] .
  then show ?thesis
    using assms(1) by (simp add: sort_year_desc_def distinct_map_sort_key)
qed

lemma process_run: "process (Some saved_sample) typed_lines = (trace_sample, Returned)"
  by code_simp

lemma rows_run: "scrape_rows 0 ''Hugo'' 0 [] ([willis_row] @ vinge_row # []) = Inr (1993, hugo_collected)"
  by code_simp

section \<open>The \<^verbatim>\<open>scrape\<close> command as a whole\<close>

lemma scrape_Inr:
  assumes "scrape after hugo_page nebula_page file = Inr saved"
  obtains hugo_data nebula_data where
    "scrape_award_novels hugo_page ''Hugo'' = Inr hugo_data"
    "scrape_award_novels nebula_page ''Nebula'' = Inr nebula_data"
    "saved = scrape_merge after (hugo_data @ nebula_data) (load_novels_from_json file)"
  using assms by (auto simp: scrape_def split: sum.splits)

lemma first_run: "scrape 1990 hugo_sample nebula_sample None = Inr saved_sample"
  by code_simp

lemma run_after_reading:
  "scrape 1990 hugo_sample nebula_sample (Some [fire_read, dune]) = Inr saved_after_reading"
  by code_simp

lemma run_with_later_year:
  "scrape 1990 hugo_sample nebula_sample (Some [accelerando]) = Inr saved_with_later_year"
  by code_simp

lemma hugo_run: "scrape_award_novels hugo_sample ''Hugo'' = Inr hugo_collected"
  by code_simp

lemma second_run: "scrape 1990 hugo_sample nebula_sample (Some saved_sample) = Inr saved_twice"
  by code_simp

lemma merge_sample: "scrape_merge 1990 hugo_collected [fire_read, dune] = merged_sample"
  by code_simp

text \<open>Two records whose award strings differ: the two strings, sorted, with a pipe between.\<close>

lemma carry_over_award:
  "award found \<noteq> award item \<Longrightarrow>
   award (carry_over found item) = join ''|'' (sorted_strs [award item, award found])"
  by (auto simp: carry_over_def Let_def)

text \<open>
  Claim C4.  Whatever the newly collected entries and the persisted list are, no two
  positions of the merged list carry the same (title, year) pair; so whatever the two
  pages and the file hold, when \<^verbatim>\<open>scrape\<close> saves a list, that list has no such two
  positions.
\<close>

theorem scrape_keys_unique:
  "distinct (map novel_key (scrape_merge after collected loaded))
   \<and> (scrape after hugo_page nebula_page file = Inr saved \<longrightarrow> distinct (map novel_key saved))"
proof (intro conjI impI)
  show "distinct (map novel_key (scrape_merge after collected loaded))"
    by (rule scrape_merge_distinct)
next
  assume "scrape after hugo_page nebula_page file = Inr saved"
  then show "distinct (map novel_key saved)"
    by (elim scrape_Inr) (simp add: scrape_merge_distinct)
qed

theorem scrape_keys_unique_witness:
  "scrape_merge 1990 hugo_collected [fire_read, dune] = merged_sample
   \<and> distinct (map novel_key merged_sample)
   \<and> scrape 1990 hugo_sample nebula_sample (Some [fire_read, dune]) = Inr saved_after_reading
   \<and> distinct (map novel_key saved_after_reading)"
proof -
  note unique = scrape_keys_unique [of 1990 hugo_collected "[fire_read, dune]"
      hugo_sample nebula_sample "Some [fire_read, dune]" saved_after_reading,
      unfolded merge_sample]
  have c1: "distinct (map novel_key merged_sample)"
    using unique by blast
  have c2: "distinct (map novel_key saved_after_reading)"
    using unique run_after_reading by blast
  show ?thesis by (intro conjI merge_sample c1 run_after_reading c2)
qed

text \<open>
  Claim C10.  The merged list is in ascending order of the pair (year, title) of its
  records, years compared first and titles, code point by code point, between equal years,
  as Python compares the tuples; and none of its records has a year below the \<^verbatim>\<open>--after\<close>
  value, whatever the value is.  So it is with the list \<^verbatim>\<open>scrape\<close> saves.
\<close>

theorem scrape_sorted_from_after:
  "sorted (map (\<lambda>x. (year x, title x)) (scrape_merge after collected loaded))
   \<and> (\<forall>r \<in> set (scrape_merge after collected loaded). after \<le> year r)
   \<and> (scrape after hugo_page nebula_page file = Inr saved
       \<longrightarrow> sorted (map (\<lambda>x. (year x, title x)) saved) \<and> (\<forall>r \<in> set saved. after \<le> year r))"
proof (intro conjI impI)
  show "sorted (map (\<lambda>x. (year x, title x)) (scrape_merge after collected loaded))"
    by (rule scrape_merge_sorted)
  show "\<forall>r \<in> set (scrape_merge after collected loaded). after \<le> year r"
    by (rule scrape_merge_years)
next
  assume "scrape after hugo_page nebula_page file = Inr saved"
  then show "sorted (map (\<lambda>x. (year x, title x)) saved)"
    by (elim scrape_Inr) (simp add: scrape_merge_sorted)
next
  assume "scrape after hugo_page nebula_page file = Inr saved"
  then show "\<forall>r \<in> set saved. after \<le> year r"
    by (elim scrape_Inr) (simp add: scrape_merge_years)
qed

text \<open>
  The file holds the 2006 record alone, so the dictionary has it before the two 1993
  records of the pages, and its title lies between theirs: the saved list is neither in
  the order of the dictionary nor in the order of the titles.
\<close>

theorem scrape_sorted_from_after_witness:
  "scrape 1990 hugo_sample nebula_sample (Some [accelerando]) = Inr saved_with_later_year
   \<and> map (\<lambda>x. (year x, title x)) saved_with_later_year
       = [(1993, ''A Fire Upon the Deep''), (1993, ''Doomsday Book''), (2006, ''Accelerando'')]
   \<and> sorted (map (\<lambda>x. (year x, title x)) saved_with_later_year)
   \<and> list_all (\<lambda>r. 1990 \<le> year r) saved_with_later_year"
proof -
  note ordered = scrape_sorted_from_after [of 1990 hugo_collected "[accelerando]"
      hugo_sample nebula_sample "Some [accelerando]" saved_with_later_year]
  have k: "map (\<lambda>x. (year x, title x)) saved_with_later_year
       = [(1993, ''A Fire Upon the Deep''), (1993, ''Doomsday Book''), (2006, ''Accelerando'')]"
    by (simp add: saved_with_later_year_def)
  have c1: "sorted (map (\<lambda>x. (year x, title x)) saved_with_later_year)"
    using ordered run_with_later_year by blast
  have c2: "\<forall>r \<in> set saved_with_later_year. 1990 \<le> year r"
    using ordered run_with_later_year by blast
  show ?thesis
    unfolding list_all_iff by (intro conjI run_with_later_year k c1 c2)
qed

text \<open>
  Claim C2, as stated, fails: the file held the 1966 record \<open>dune\<close>, the command ran with
  the default \<^verbatim>\<open>--after\<close> of 1990, and the saved list has no record with that key.
\<close>

theorem scrape_drops_record_before_after:
  "dune \<in> set (load_novels_from_json (Some [fire_read, dune]))
   \<and> scrape 1990 hugo_sample nebula_sample (Some [fire_read, dune]) = Inr saved_after_reading
   \<and> novel_key dune \<notin> novel_key ` set saved_after_reading"
proof -
  have "dune \<in> set (load_novels_from_json (Some [fire_read, dune]))"
    by (simp add: load_novels_from_json_def)
  moreover have "novel_key dune \<notin> novel_key ` set saved_after_reading"
    by (simp add: novel_key_def dune_def saved_after_reading_def)
  ultimately show ?thesis using run_after_reading by simp
qed

text \<open>
  Claim C2, amended.  Every record of the file whose year is not below the \<^verbatim>\<open>--after\<close>
  value has a record with its (title, year) key in the list \<^verbatim>\<open>scrape\<close> saves.
\<close>

theorem scrape_keeps_records_from_after:
  assumes "scrape after hugo_page nebula_page file = Inr saved"
    and "e \<in> set (load_novels_from_json file)" and "after \<le> year e"
  shows "\<exists>r \<in> set saved. novel_key r = novel_key e"
proof -
  from assms(1) obtain collected where
    "saved = scrape_merge after collected (load_novels_from_json file)"
    by (elim scrape_Inr)
  then have "novel_key e \<in> novel_key ` set saved"
    using assms(2,3) by (simp add: scrape_merge_keeps_key)
  then show ?thesis by force
qed

theorem scrape_keeps_records_from_after_witness:
  "scrape 1990 hugo_sample nebula_sample (Some [fire_read, dune]) = Inr saved_after_reading
   \<and> fire_read \<in> set (load_novels_from_json (Some [fire_read, dune]))
   \<and> 1990 \<le> year fire_read
   \<and> (\<exists>r \<in> set saved_after_reading. novel_key r = novel_key fire_read)"
proof -
  have m: "fire_read \<in> set (load_novels_from_json (Some [fire_read, dune]))"
    by (simp add: load_novels_from_json_def)
  have y: "1990 \<le> year fire_read" by (simp add: fire_read_def)
  from scrape_keeps_records_from_after [OF run_after_reading m y] run_after_reading m y
  show ?thesis by simp
qed

text \<open>
  Claim C3.  The code on a file with a record marked as read: the file holds \<open>fire_read\<close>,
  annotated by hand with the point of view "third" and marked as read; the first page
  lists the same title and year; the record \<^verbatim>\<open>scrape\<close> saves under that key has the point
  of view, and is not marked as read.
\<close>

theorem scrape_resets_read:
  "scrape 1990 hugo_sample nebula_sample (Some [fire_read, dune]) = Inr saved_after_reading
   \<and> fire_read \<in> set (load_novels_from_json (Some [fire_read, dune]))
   \<and> saved_after_reading ! 0 \<in> set saved_after_reading
   \<and> novel_key (saved_after_reading ! 0) = novel_key fire_read
   \<and> read (saved_after_reading ! 0) \<noteq> read fire_read
   \<and> read fire_read
   \<and> pov (saved_after_reading ! 0) = pov fire_read"
  using run_after_reading
  by (simp add: load_novels_from_json_def saved_after_reading_def fire_read_def novel_key_def)

text \<open>
  The half of the annotation the command does keep.  When the keys of the file's records
  are distinct, every record that \<^verbatim>\<open>scrape\<close> saves under the key of a record of the file
  has that record's \<^verbatim>\<open>pov\<close>, and there is such a saved record when the year is not below
  the \<^verbatim>\<open>--after\<close> value.
\<close>

theorem scrape_keeps_pov:
  assumes "scrape after hugo_page nebula_page file = Inr saved"
    and "distinct (map novel_key (load_novels_from_json file))"
    and "e \<in> set (load_novels_from_json file)"
  shows "(\<forall>r \<in> set saved. novel_key r = novel_key e \<longrightarrow> pov r = pov e)
         \<and> (after \<le> year e \<longrightarrow> novel_key e \<in> novel_key ` set saved)"
proof -
  from assms(1) obtain hugo_data nebula_data where
    h: "scrape_award_novels hugo_page ''Hugo'' = Inr hugo_data" and
    n: "scrape_award_novels nebula_page ''Nebula'' = Inr nebula_data" and
    s: "saved = scrape_merge after (hugo_data @ nebula_data) (load_novels_from_json file)"
    by (elim scrape_Inr)
  have "\<forall>x \<in> set (hugo_data @ nebula_data). pov x = None"
    using collector_fresh [OF h] collector_fresh [OF n] by (auto simp: fresh_record_def)
  then have "\<forall>r \<in> set saved. novel_key r = novel_key e \<longrightarrow> pov r = pov e"
    using scrape_merge_pov [OF assms(2,3)] s by blast
  moreover have "after \<le> year e \<longrightarrow> novel_key e \<in> novel_key ` set saved"
    using scrape_merge_keeps_key [OF assms(3)] s by simp
  ultimately show ?thesis by simp
qed

theorem scrape_keeps_pov_witness:
  "scrape 1990 hugo_sample nebula_sample (Some [fire_read, dune]) = Inr saved_after_reading
   \<and> distinct (map novel_key (load_novels_from_json (Some [fire_read, dune])))
   \<and> fire_read \<in> set (load_novels_from_json (Some [fire_read, dune]))
   \<and> saved_after_reading ! 0 \<in> set saved_after_reading
   \<and> novel_key (saved_after_reading ! 0) = novel_key fire_read
   \<and> pov (saved_after_reading ! 0) = pov fire_read
   \<and> 1990 \<le> year fire_read
   \<and> novel_key fire_read \<in> novel_key ` set saved_after_reading"
proof -
  have d: "distinct (map novel_key (load_novels_from_json (Some [fire_read, dune])))"
    by (simp add: load_novels_from_json_def novel_key_def fire_read_def dune_def)
  have m: "fire_read \<in> set (load_novels_from_json (Some [fire_read, dune]))"
    by (simp add: load_novels_from_json_def)
  have r: "saved_after_reading ! 0 \<in> set saved_after_reading"
    by (simp add: saved_after_reading_def)
  have k: "novel_key (saved_after_reading ! 0) = novel_key fire_read"
    by (simp add: saved_after_reading_def fire_read_def novel_key_def)
  have y: "1990 \<le> year fire_read" by (simp add: fire_read_def)
  from scrape_keeps_pov [OF run_after_reading d m] r k y
  have "pov (saved_after_reading ! 0) = pov fire_read"
    and "novel_key fire_read \<in> novel_key ` set saved_after_reading"
    by blast+
  then show ?thesis using run_after_reading d m r k y by simp
qed

text \<open>
  Claim C5.  In the merge of \<^verbatim>\<open>scrape\<close>, whatever the newly collected entries are, a
  record of the persisted list with a \<^verbatim>\<open>pov\<close> that is not \<^verbatim>\<open>None\<close> passes that value on:
  every record of the merged list under its key has it, and there is one when the year is
  not below the \<^verbatim>\<open>--after\<close> value.  The persisted list is one with distinct keys, as
  \<^verbatim>\<open>scrape\<close> writes it and \<^verbatim>\<open>process\<close> leaves it (lemma \<open>process_saves_distinct\<close>).
\<close>

theorem merge_keeps_assigned_pov:
  assumes "distinct (map novel_key persisted)" and "e \<in> set persisted" and "pov e \<noteq> None"
  shows "(\<forall>r \<in> set (scrape_merge after collected persisted).
            novel_key r = novel_key e \<longrightarrow> pov r = pov e)
         \<and> (after \<le> year e \<longrightarrow>
              novel_key e \<in> novel_key ` set (scrape_merge after collected persisted))"
proof -
  have "\<forall>r \<in> set (scrape_merge after collected persisted).
          novel_key r = novel_key e \<longrightarrow> pov r = pov e"
    using scrape_merge_pov [OF assms(1,2)] assms(3) by blast
  moreover have "after \<le> year e \<longrightarrow>
      novel_key e \<in> novel_key ` set (scrape_merge after collected persisted)"
    using scrape_merge_keeps_key [OF assms(2)] by simp
  ultimately show ?thesis by simp
qed

theorem merge_keeps_assigned_pov_witness:
  "distinct (map novel_key [fire_read, dune])
   \<and> fire_read \<in> set [fire_read, dune]
   \<and> pov fire_read \<noteq> None
   \<and> hugo_collected ! 1 \<in> set hugo_collected
   \<and> novel_key (hugo_collected ! 1) = novel_key fire_read
   \<and> scrape_merge 1990 hugo_collected [fire_read, dune] = merged_sample
   \<and> merged_sample ! 0 \<in> set merged_sample
   \<and> novel_key (merged_sample ! 0) = novel_key fire_read
   \<and> pov (merged_sample ! 0) = pov fire_read
   \<and> 1990 \<le> year fire_read
   \<and> novel_key fire_read \<in> novel_key ` set merged_sample"
proof -
  have d: "distinct (map novel_key [fire_read, dune])"
    by (simp add: novel_key_def fire_read_def dune_def)
  have m: "fire_read \<in> set [fire_read, dune]" by simp
  have p: "pov fire_read \<noteq> None" by (simp add: fire_read_def)
  have c: "hugo_collected ! 1 \<in> set hugo_collected"
    "novel_key (hugo_collected ! 1) = novel_key fire_read"
    by (simp_all add: hugo_collected_def fire_read_def novel_key_def)
  have r: "merged_sample ! 0 \<in> set merged_sample"
    by (simp add: merged_sample_def)
  have k: "novel_key (merged_sample ! 0) = novel_key fire_read"
    by (simp add: merged_sample_def fire_read_def novel_key_def)
  have y: "1990 \<le> year fire_read" by (simp add: fire_read_def)
  from merge_keeps_assigned_pov [OF d m p, of 1990 hugo_collected] r k y
  have "pov (merged_sample ! 0) = pov fire_read"
    and "novel_key fire_read \<in> novel_key ` set merged_sample"
    unfolding merge_sample by blast+
  then show ?thesis using merge_sample d m p c r k y by simp
qed

text \<open>
  Claim C1.  The code at a second run: on the two sample pages and no file, \<^verbatim>\<open>scrape\<close>
  saves the record of the novel on both pages with the award \<^verbatim>\<open>Hugo|Nebula\<close>; run again
  on the same pages over that file, it saves the record with each label twice.
\<close>

theorem rescrape_repeats_award_labels:
  "scrape 1990 hugo_sample nebula_sample None = Inr saved_sample
   \<and> award (saved_sample ! 1) = ''Hugo|Nebula''
   \<and> scrape 1990 hugo_sample nebula_sample (Some saved_sample) = Inr saved_twice
   \<and> award (saved_twice ! 1) = ''Hugo|Hugo|Nebula|Nebula''"
  using first_run second_run by (simp add: saved_sample_def saved_twice_def)

text \<open>
  Claim C6.  Every record of the list \<^verbatim>\<open>scrape_award_novels\<close> returns has the award label
  it was called with, a title that is not empty, a year that is a positive integer, no
  point of view, and is not marked as read.
\<close>

theorem collector_records:
  assumes "scrape_award_novels resp award_name = Inr out"
  shows "\<forall>n \<in> set out. award n = award_name \<and> title n \<noteq> [] \<and> 0 < year n
                         \<and> pov n = None \<and> \<not> read n"
  using collector_fresh [OF assms] by (simp add: fresh_record_def)

theorem collector_records_witness:
  "scrape_award_novels hugo_sample ''Hugo'' = Inr hugo_collected
   \<and> list_all (\<lambda>n. award n = ''Hugo'' \<and> title n \<noteq> [] \<and> 0 < year n
                    \<and> pov n = None \<and> \<not> read n) hugo_collected"
  using collector_records [OF hugo_run] hugo_run by (simp add: list_all_iff)

text \<open>
  Claim C7.  In a table whose body rows the collector gets through, take a row whose year
  cell is absent or does not give a positive year.  The loop reaches it with the most
  recently parsed year of the earlier rows of the table in force and leaves that year in
  force; the records the row appends (none for a row it skips as retrospective) all carry
  that year; and when no earlier row gave a year, the row appends nothing.
\<close>

theorem year_carried_forward:
  assumes "scrape_rows yc a 0 acc (pre @ r # post) = Inr res"
    and "parsed_year yc r = None"
  shows "\<exists>acc1 recs.
           scrape_rows yc a 0 acc pre = Inr (last_parsed_year yc pre, acc1)
         \<and> scrape_rows yc a 0 acc (pre @ [r]) = Inr (last_parsed_year yc pre, acc1 @ recs)
         \<and> recs = (if is_retro_row yc r then [] else row_records a (last_parsed_year yc pre) r)
         \<and> (\<forall>n \<in> set recs. year n = last_parsed_year yc pre)
         \<and> (last_parsed_year yc pre = 0 \<longrightarrow> recs = [])"
proof -
  from assms(1) obtain cy acc1 where
    pre: "scrape_rows yc a 0 acc pre = Inr (cy, acc1)"
    and rest: "scrape_rows yc a cy acc1 (r # post) = Inr res"
    by (auto simp: scrape_rows_append split: sum.splits)
  from rest obtain cy1 recs where
    step: "scrape_row yc a cy r = Inr (cy1, recs)"
    by (auto split: sum.splits)
  have cy: "cy = last_parsed_year yc pre"
    using scrape_rows_year [OF pre] by (simp add: last_parsed_year_def)
  have r: "cy1 = cy" "recs = (if is_retro_row yc r then [] else row_records a cy r)"
    using scrape_row_no_year [OF step assms(2)] by simp_all
  have "scrape_rows yc a 0 acc (pre @ [r]) = Inr (cy, acc1 @ recs)"
    using pre step r(1) by (simp add: scrape_rows_append)
  moreover have "\<forall>n \<in> set recs. year n = cy"
    using r(2) by (auto simp: row_records_def)
  moreover have "cy = 0 \<longrightarrow> recs = []"
    using r(2) by (simp add: row_records_def)
  ultimately show ?thesis using pre r(2) cy by blast
qed

theorem year_carried_forward_witness:
  "scrape_rows 0 ''Hugo'' 0 [] ([willis_row] @ vinge_row # []) = Inr (1993, hugo_collected)
   \<and> parsed_year 0 vinge_row = None
   \<and> last_parsed_year 0 [willis_row] = 1993
   \<and> (\<exists>acc1 recs.
           scrape_rows 0 ''Hugo'' 0 [] [willis_row] = Inr (last_parsed_year 0 [willis_row], acc1)
         \<and> scrape_rows 0 ''Hugo'' 0 [] ([willis_row] @ [vinge_row])
             = Inr (last_parsed_year 0 [willis_row], acc1 @ recs)
         \<and> recs = (if is_retro_row 0 vinge_row then []
                    else row_records ''Hugo'' (last_parsed_year 0 [willis_row]) vinge_row)
         \<and> (\<forall>n \<in> set recs. year n = last_parsed_year 0 [willis_row])
         \<and> (last_parsed_year 0 [willis_row] = 0 \<longrightarrow> recs = []))"
proof -
  have p: "parsed_year 0 vinge_row = None" by code_simp
  have l: "last_parsed_year 0 [willis_row] = 1993" by code_simp
  from year_carried_forward [OF rows_run p] rows_run p l show ?thesis by blast
qed

text \<open>
  Claim C8.  In the model a record's \<^verbatim>\<open>read\<close> is a truth value by its type, and \<^verbatim>\<open>pov\<close> is
  \<^verbatim>\<open>None\<close> or any string.  The predicate \<open>pov_ok\<close>, that \<^verbatim>\<open>pov\<close> is \<^verbatim>\<open>None\<close> or one of
  "first", "second" and "third", holds of every record the collector returns; of every
  record \<^verbatim>\<open>scrape\<close> saves when it holds of every record of the file; and of every record
  of every list \<^verbatim>\<open>process\<close> saves when it holds of every record of the file.
\<close>

theorem pov_shape_preserved:
  "(scrape_award_novels resp award_name = Inr out \<longrightarrow> (\<forall>n \<in> set out. pov_ok n))
   \<and> (scrape after hugo_page nebula_page file = Inr saved
        \<and> (\<forall>n \<in> set (load_novels_from_json file). pov_ok n)
       \<longrightarrow> (\<forall>n \<in> set saved. pov_ok n))
   \<and> ((\<forall>n \<in> set (load_novels_from_json file'). pov_ok n)
        \<and> Saved l \<in> set (fst (process file' inputs))
       \<longrightarrow> (\<forall>n \<in> set l. pov_ok n))"
proof (intro conjI impI)
  assume "scrape_award_novels resp award_name = Inr out"
  then show "\<forall>n \<in> set out. pov_ok n"
    using collector_fresh fresh_pov_ok by blast
next
  assume a: "scrape after hugo_page nebula_page file = Inr saved
             \<and> (\<forall>n \<in> set (load_novels_from_json file). pov_ok n)"
  then obtain hugo_data nebula_data where
    h: "scrape_award_novels hugo_page ''Hugo'' = Inr hugo_data" and
    n: "scrape_award_novels nebula_page ''Nebula'' = Inr nebula_data" and
    s: "saved = scrape_merge after (hugo_data @ nebula_data) (load_novels_from_json file)"
    by (elim conjE scrape_Inr)
  have "\<forall>x \<in> set (hugo_data @ nebula_data). pov_ok x"
    using collector_fresh [OF h] collector_fresh [OF n] fresh_pov_ok by auto
  then show "\<forall>n \<in> set saved. pov_ok n"
    using a s scrape_merge_pov_ok by blast
next
  assume a: "(\<forall>n \<in> set (load_novels_from_json file'). pov_ok n)
             \<and> Saved l \<in> set (fst (process file' inputs))"
  then have "\<forall>n \<in> set (sort_year_desc (load_novels_from_json file')). pov_ok n"
    by (simp add: sort_year_desc_def)
  from trace_pov_ok [OF process_trace this] a show "\<forall>n \<in> set l. pov_ok n"
    by blast
qed

theorem pov_shape_preserved_witness:
  "scrape_award_novels hugo_sample ''Hugo'' = Inr hugo_collected
   \<and> list_all pov_ok hugo_collected
   \<and> scrape 1990 hugo_sample nebula_sample (Some [fire_read, dune]) = Inr saved_after_reading
   \<and> list_all pov_ok (load_novels_from_json (Some [fire_read, dune]))
   \<and> list_all pov_ok saved_after_reading
   \<and> list_all pov_ok (load_novels_from_json (Some saved_sample))
   \<and> Saved annotated_sample \<in> set (fst (process (Some saved_sample) typed_lines))
   \<and> list_all pov_ok annotated_sample"
proof -
  have f: "\<forall>n \<in> set (load_novels_from_json (Some [fire_read, dune])). pov_ok n"
    by (simp add: load_novels_from_json_def pov_ok_def fire_read_def dune_def)
  have g: "\<forall>n \<in> set (load_novels_from_json (Some saved_sample)). pov_ok n"
    by (simp add: load_novels_from_json_def pov_ok_def saved_sample_def)
  have t: "Saved annotated_sample \<in> set (fst (process (Some saved_sample) typed_lines))"
    unfolding process_run by (simp add: trace_sample_def)
  note kept = pov_shape_preserved [of hugo_sample "''Hugo''" hugo_collected 1990 hugo_sample
      nebula_sample "Some [fire_read, dune]" saved_after_reading "Some saved_sample"
      annotated_sample typed_lines]
  have c1: "\<forall>n \<in> set hugo_collected. pov_ok n"
    using kept hugo_run by blast
  have c2: "\<forall>n \<in> set saved_after_reading. pov_ok n"
    using kept run_after_reading f by blast
  have c3: "\<forall>n \<in> set annotated_sample. pov_ok n"
    using kept g t by blast
  show ?thesis
    unfolding list_all_iff
    by (intro conjI hugo_run c1 run_after_reading f c2 g t c3)
qed

text \<open>
  Claim C9.  The events of a run of \<^verbatim>\<open>process\<close>, over the file's collection in the order
  the command puts it, have the shape \<open>prompt_then_save\<close>: the command prompts only for
  records whose \<^verbatim>\<open>pov\<close> is not set, and after each record it annotates it writes the whole
  collection, with that assignment, before it prompts for another.  A \<^verbatim>\<open>pov\<close> that is not
  set is \<^verbatim>\<open>None\<close> or the empty string in the code; in a collection whose \<^verbatim>\<open>pov\<close> values
  are \<^verbatim>\<open>None\<close> or one of the three names, it is \<^verbatim>\<open>None\<close>.
\<close>

theorem annotator_saves_after_each_entry:
  "prompt_then_save (sort_year_desc (load_novels_from_json file)) (fst (process file inputs))
   \<and> ((\<forall>n \<in> set (load_novels_from_json file). pov_ok n)
       \<longrightarrow> (\<forall>i n. Prompted i n \<in> set (fst (process file inputs)) \<longrightarrow> pov n = None))"
proof (intro conjI impI)
  show "prompt_then_save (sort_year_desc (load_novels_from_json file)) (fst (process file inputs))"
    by (rule process_trace)
next
  assume "\<forall>n \<in> set (load_novels_from_json file). pov_ok n"
  then have "\<forall>n \<in> set (sort_year_desc (load_novels_from_json file)). pov_ok n"
    by (simp add: sort_year_desc_def)
  from trace_pov_ok [OF process_trace this]
  show "\<forall>i n. Prompted i n \<in> set (fst (process file inputs)) \<longrightarrow> pov n = None"
    by blast
qed

theorem annotator_saves_after_each_entry_witness:
  "process (Some saved_sample) typed_lines = (trace_sample, Returned)
   \<and> prompt_then_save (sort_year_desc (load_novels_from_json (Some saved_sample))) trace_sample
   \<and> list_all pov_ok (load_novels_from_json (Some saved_sample))
   \<and> Prompted 0 (saved_sample ! 0) \<in> set trace_sample
   \<and> pov (saved_sample ! 0) = None"
proof -
  have g: "\<forall>n \<in> set (load_novels_from_json (Some saved_sample)). pov_ok n"
    by (simp add: load_novels_from_json_def pov_ok_def saved_sample_def)
  have t: "Prompted 0 (saved_sample ! 0) \<in> set trace_sample"
    by (simp add: trace_sample_def)
  have fst_run: "fst (process (Some saved_sample) typed_lines) = trace_sample"
    unfolding process_run by simp
  note shape = annotator_saves_after_each_entry [of "Some saved_sample" typed_lines,
      unfolded fst_run]
  have c1: "prompt_then_save (sort_year_desc (load_novels_from_json (Some saved_sample)))
              trace_sample"
    using shape by blast
  have c2: "pov (saved_sample ! 0) = None"
    using shape g t by blast
  show ?thesis
    unfolding list_all_iff
    by (intro conjI process_run c1 g t c2)
qed

end
